theory Spec2Isabelle
  imports Complex_Main "HOL-Library.Multiset"
begin

section \<open>Observable effects of the orchestration runner\<close>

text \<open>
  The runner (\<^verbatim>\<open>src/Automation/main.py\<close>) computes very little; what it does is
  visible through the calls it makes: log records, file-system queries, draws from the
  random source, sleeps and child processes. Every function of the model returns its
  Python return value (for \<^verbatim>\<open>run_script\<close>, its boolean or the exception that
  leaves it) together with the list of these calls, in program order.
  \<^verbatim>\<open>setup_logging\<close> only attaches the handlers that print the records and is
  left out.

  Python strings are embedded as \<^typ>\<open>string\<close>, that is, strings whose code points are
  below 256. In that range the regular-expression class \<^verbatim>\<open>\d\<close> is exactly
  \<^verbatim>\<open>0\<close> to \<^verbatim>\<open>9\<close>. The floating-point delay is never computed with by the
  runner, only passed on, so its type there is the parameter \<open>'d\<close>.
\<close>

text \<open>
  A Python float: a finite number, an infinity or a NaN. The two signs of zero are not
  told apart.
\<close>

datatype pyfloat = Finite real | PosInf | NegInf | NaN

datatype level = INFO | WARNING | ERROR

text \<open>One constructor per logging call of the source, holding the values it formats.\<close>

datatype 'd message =
    WillBeRepeated string int
  | NoRepetitionNumber string
  | ScriptDoesNotExist string
  | NotAFile string
  | ScriptNotReadable string
  | AttemptDelay int int string 'd
  | SuccessfullyCompleted string int
  | ErrorExecuting string int int
  | STDOUT string
  | STDERR string
  | UnexpectedError string string
  | ExecutionSummary
  | SuccessfulScripts "string list"
  | FailedScripts "string list"

datatype 'd event =
    Log level "'d message"
  | OsPathExists string
  | OsPathIsfile string
  | OsAccessR string
  | RandomUniform pyfloat pyfloat 'd
  | TimeSleep 'd
  | SubprocessRun "string list" int
  | SubprocessRaised "string list" string

section \<open>Repetition parser\<close>

definition is_digit :: "char \<Rightarrow> bool" where
  "is_digit c \<longleftrightarrow> 48 \<le> (of_char c :: nat) \<and> (of_char c :: nat) \<le> 57"

definition digit_value :: "char \<Rightarrow> int" where
  "digit_value c = int (of_char c) - 48"

text \<open>\<^verbatim>\<open>int(s)\<close> on a non-empty string of decimal digits (the only strings group 1 of
  the pattern can hold). The limit that recent interpreters put on the number of digits
  (4300 by default) is beyond the length of any file name and is not modelled.\<close>

definition int_of_digits :: "string \<Rightarrow> int" where
  "int_of_digits ds = foldl (\<lambda>a c. 10 * a + digit_value c) 0 ds"

text \<open>\<^verbatim>\<open>os.path.basename\<close> of \<^verbatim>\<open>posixpath\<close>: everything after the last slash.\<close>

definition basename :: "string \<Rightarrow> string" where
  "basename p = rev (takeWhile (\<lambda>c. c \<noteq> CHR ''/'') (rev p))"

text \<open>
  The pattern \<^verbatim>\<open>-(\d+)\.py$\<close> tried at the start of \<open>s\<close>; the result is group 1.
  \<^verbatim>\<open>\d+\<close> is greedy, and giving back a digit never helps, since the next pattern
  character is a dot: the group is the longest run of digits after the hyphen. Without
  the MULTILINE flag, \<^verbatim>\<open>$\<close> matches at the end of the string and also just before
  a newline that is the last character of the string.
\<close>

definition match_here :: "string \<Rightarrow> string option" where
  "match_here s =
     (case s of
        [] \<Rightarrow> None
      | c # r \<Rightarrow>
          if c = CHR ''-'' then
            (let ds = takeWhile is_digit r; rest = dropWhile is_digit r
             in if ds \<noteq> [] \<and> (rest = ''.py'' \<or> rest = ''.py'' @ [CHR 0x0A])
                then Some ds else None)
          else None)"

text \<open>\<^verbatim>\<open>re.search\<close>: the first position, from the left, where the pattern matches.\<close>

fun re_search :: "string \<Rightarrow> string option" where
  "re_search [] = match_here []"
| "re_search (c # cs) =
     (case match_here (c # cs) of
        Some g \<Rightarrow> Some g
      | None \<Rightarrow> re_search cs)"

definition parse_repetitions :: "string \<Rightarrow> int \<times> 'd event list" where
  "parse_repetitions script_path =
     (let filename = basename script_path
      in case re_search filename of
           Some g \<Rightarrow>
             (let repetitions = int_of_digits g
              in (repetitions, [Log INFO (WillBeRepeated filename repetitions)]))
         | None \<Rightarrow> (1, [Log WARNING (NoRepetitionNumber filename)]))"

section \<open>Script validator\<close>

text \<open>
  The file system as the three library calls see it: a path names nothing, or an entry of
  some kind that the current process may or may not read.
\<close>

datatype file_kind = RegularFile | Directory | SpecialFile

record fs_entry =
  kind :: file_kind
  readable :: bool

type_synonym filesystem = "string \<Rightarrow> fs_entry option"

definition os_path_exists :: "filesystem \<Rightarrow> string \<Rightarrow> bool" where
  "os_path_exists fs p = (case fs p of None \<Rightarrow> False | Some e \<Rightarrow> True)"

definition os_path_isfile :: "filesystem \<Rightarrow> string \<Rightarrow> bool" where
  "os_path_isfile fs p = (case fs p of None \<Rightarrow> False | Some e \<Rightarrow> kind e = RegularFile)"

definition os_access_R_OK :: "filesystem \<Rightarrow> string \<Rightarrow> bool" where
  "os_access_R_OK fs p = (case fs p of None \<Rightarrow> False | Some e \<Rightarrow> readable e)"

definition validate_script :: "filesystem \<Rightarrow> string \<Rightarrow> bool \<times> 'd event list" where
  "validate_script fs script_path =
     (if \<not> os_path_exists fs script_path then
        (False, [OsPathExists script_path,
                 Log ERROR (ScriptDoesNotExist script_path)])
      else if \<not> os_path_isfile fs script_path then
        (False, [OsPathExists script_path, OsPathIsfile script_path,
                 Log ERROR (NotAFile script_path)])
      else if \<not> os_access_R_OK fs script_path then
        (False, [OsPathExists script_path, OsPathIsfile script_path, OsAccessR script_path,
                 Log ERROR (ScriptNotReadable script_path)])
      else
        (True, [OsPathExists script_path, OsPathIsfile script_path, OsAccessR script_path]))"

section \<open>Delay generator and script runner\<close>

text \<open>
  What a Python call hands to its caller: the value it returns, or an instance of
  \<^verbatim>\<open>Exception\<close> that it raises, shown by its text. For \<^verbatim>\<open>run_script\<close>
  the value is its boolean.
\<close>

datatype outcome = Returned bool | Raised string

record completed_process =
  returncode :: int
  stdout :: string
  stderr :: string

text \<open>
  How one call \<^verbatim>\<open>subprocess.run(["python", script_path], check=True,
  capture_output=True, text=True)\<close> can end:
  \<^item> the child ran to its end and its output decoded as text: the call returns when the
    return code is zero and raises \<^verbatim>\<open>CalledProcessError\<close>, with the return code
    and the captured output, when it is not;
  \<^item> the child ran to its end with the given exit status, but its output is not text in
    the locale's encoding: the call raises \<^verbatim>\<open>UnicodeDecodeError\<close>, whatever the
    exit status;
  \<^item> the child could not be started (no \<^verbatim>\<open>python\<close> on the search path, say):
    the call raises an \<^verbatim>\<open>OSError\<close> such as \<^verbatim>\<open>FileNotFoundError\<close>, given
    by its text.
\<close>

datatype run_outcome =
    Completed completed_process
  | OutputNotText int
  | NotStarted string

text \<open>
  What one worker meets while it runs one unit: the file system, the value that the
  \<open>k\<close>-th call of \<^verbatim>\<open>random.uniform\<close> returns for given bounds, and how the
  \<open>k\<close>-th call of \<^verbatim>\<open>subprocess.run\<close> ends for a given command line.
\<close>

record 'd world =
  files :: filesystem
  random_uniform :: "nat \<Rightarrow> pyfloat \<Rightarrow> pyfloat \<Rightarrow> 'd"
  child :: "nat \<Rightarrow> string list \<Rightarrow> run_outcome"














text \<open>
  \<^verbatim>\<open>get_random_delay\<close> hands its bounds to \<^verbatim>\<open>random.uniform\<close> and returns
  what it gets. The bounds are floats, as the docstring has them; the defaults are the
  integers 3 and 10, which the formula turns into the floats 3.0 and 10.0 with the same
  result, since 10 - 3 is exact in both arithmetics.
\<close>

definition get_random_delay ::
  "(pyfloat \<Rightarrow> pyfloat \<Rightarrow> 'd) \<Rightarrow> pyfloat \<Rightarrow> pyfloat \<Rightarrow> 'd \<times> 'd event list" where
  "get_random_delay random_uniform_call min_delay max_delay =
     (let d = random_uniform_call min_delay max_delay
      in (d, [RandomUniform min_delay max_delay d]))"

text \<open>
  The loop \<^verbatim>\<open>for attempt in range(max_repetitions)\<close>, from index \<open>attempt\<close> on.
  The \<^verbatim>\<open>except\<close> clause names \<^verbatim>\<open>CalledProcessError\<close> only, so any other
  exception of \<^verbatim>\<open>subprocess.run\<close> leaves the loop and the function.
\<close>

function attempts :: "'d world \<Rightarrow> string \<Rightarrow> int \<Rightarrow> nat \<Rightarrow> outcome \<times> 'd event list" where
  "attempts w script_path max_repetitions attempt =
     (if int attempt < max_repetitions then
        (case get_random_delay (random_uniform w attempt) (Finite 3) (Finite 10) of
           (delay, drawn) \<Rightarrow>
             (let before =
                    drawn @
                    [Log INFO (AttemptDelay (int attempt + 1) max_repetitions script_path delay),
                     TimeSleep delay]
              in case child w attempt [''python'', script_path] of
                   Completed result \<Rightarrow>
                     if returncode result = 0 then
                       apsnd (\<lambda>rest. before @
                                [SubprocessRun [''python'', script_path] 0,
                                 Log INFO (SuccessfullyCompleted script_path (int attempt + 1))] @
                                rest)
                         (attempts w script_path max_repetitions (Suc attempt))
                     else
                       (Returned False, before @
                          [SubprocessRun [''python'', script_path] (returncode result),
                           Log ERROR (ErrorExecuting script_path (int attempt + 1)
                                        max_repetitions),
                           Log ERROR (STDOUT (stdout result)),
                           Log ERROR (STDERR (stderr result))])
                 | OutputNotText status \<Rightarrow>
                     (Raised ''UnicodeDecodeError'', before @
                        [SubprocessRaised [''python'', script_path] ''UnicodeDecodeError''])
                 | NotStarted e \<Rightarrow>
                     (Raised e, before @ [SubprocessRaised [''python'', script_path] e])))
      else (Returned True, []))"
  by pat_completeness auto
termination
  by (relation "measure (\<lambda>(w, p, n, a). nat n - a)") auto

definition run_script :: "'d world \<Rightarrow> string \<Rightarrow> outcome \<times> 'd event list" where
  "run_script w script_path =
     (let v = validate_script (files w) script_path
      in if \<not> fst v then (Returned False, snd v)
         else
           (let r = parse_repetitions script_path;
                max_repetitions = fst r;
                a = attempts w script_path max_repetitions 0
            in (fst a, snd v @ snd r @ snd a)))"

section \<open>Orchestrator\<close>

text \<open>
  A future is named by its position in the order of submission. \<^verbatim>\<open>future.result()\<close>
  either hands over the boolean that \<^verbatim>\<open>run_script\<close> returned in the worker, or
  raises an instance of \<^verbatim>\<open>Exception\<close> (the class that the handler in
  \<^verbatim>\<open>main\<close> names): one that \<^verbatim>\<open>run_script\<close> raised, or one of the pool.
\<close>

datatype py_error = KeyError nat

record 'd summary =
  successful_scripts :: "string list"
  failed_scripts :: "string list"
  logged :: "'d event list"

definition scripts :: "string list" where
  "scripts =
     [''Automation-Survey/Automation/BSME-2-M-105.py'',
      ''Automation-Survey/Automation/BSA-3-M-20.py'',
      ''Automation-Survey/Automation/BSED-2-F-20.py'',
      ''Automation-Survey/Automation/BSED-3-M-5.py'',
      ''Automation-Survey/Automation/BSED-3-F-40.py'']"

text \<open>The dictionary comprehension: one fresh future per listed script.\<close>

definition submit_all :: "string list \<Rightarrow> (nat \<rightharpoonup> string)" where
  "submit_all ss = map_of (zip [0..<length ss] ss)"

text \<open>The body of the loop over completed futures, for a script already looked up.\<close>

definition record_result :: "string \<Rightarrow> outcome \<Rightarrow> 'd summary \<Rightarrow> 'd summary" where
  "record_result script r s =
     (case r of
        Returned result \<Rightarrow>
          if result then s\<lparr>successful_scripts := successful_scripts s @ [script]\<rparr>
          else s\<lparr>failed_scripts := failed_scripts s @ [script]\<rparr>
      | Raised e \<Rightarrow>
          s\<lparr>logged := logged s @ [Log ERROR (UnexpectedError script e)],
            failed_scripts := failed_scripts s @ [script]\<rparr>)"

text \<open>
  \<^verbatim>\<open>for future in as_completed(script_futures)\<close>: the futures arrive in the order
  they finish. The lookup \<^verbatim>\<open>script_futures[future]\<close> stands outside the
  \<^verbatim>\<open>try\<close>, so a missing key would leave the loop.
\<close>

fun process_completed ::
  "(nat \<rightharpoonup> string) \<Rightarrow> (nat \<Rightarrow> outcome) \<Rightarrow> nat list \<Rightarrow> 'd summary \<Rightarrow> py_error + 'd summary" where
  "process_completed script_futures result [] s = Inr s"
| "process_completed script_futures result (future # rest) s =
     (case script_futures future of
        None \<Rightarrow> Inl (KeyError future)
      | Some script \<Rightarrow>
          process_completed script_futures result rest (record_result script (result future) s))"

definition log_summary :: "'d summary \<Rightarrow> 'd summary" where
  "log_summary s =
     s\<lparr>logged := logged s @
          [Log INFO ExecutionSummary,
           Log INFO (SuccessfulScripts (successful_scripts s)),
           Log INFO (FailedScripts (failed_scripts s))]\<rparr>"

definition orchestrate ::
  "string list \<Rightarrow> (nat \<Rightarrow> outcome) \<Rightarrow> nat list \<Rightarrow> py_error + 'd summary" where
  "orchestrate ss result completed =
     (case process_completed (submit_all ss) result completed
             \<lparr>successful_scripts = [], failed_scripts = [], logged = []\<rparr> of
        Inl e \<Rightarrow> Inl e
      | Inr s \<Rightarrow> Inr (log_summary s))"

definition main :: "(nat \<Rightarrow> outcome) \<Rightarrow> nat list \<Rightarrow> py_error + 'd summary" where
  "main result completed = orchestrate scripts result completed"

section \<open>Reading a trace\<close>

text \<open>
  An attempt shows in the trace as a draw, a sleep and a call of \<^verbatim>\<open>subprocess.run\<close>,
  whether the call completed or raised. A failed attempt is one whose child ran to its
  end with a return code other than zero.
\<close>

fun is_run :: "'d event \<Rightarrow> bool" where
  "is_run (SubprocessRun argv rc) = True"
| "is_run (SubprocessRaised argv e) = True"
| "is_run e = False"

fun is_failed_run :: "'d event \<Rightarrow> bool" where
  "is_failed_run (SubprocessRun argv rc) = (rc \<noteq> 0)"
| "is_failed_run e = False"

fun is_draw :: "'d event \<Rightarrow> bool" where
  "is_draw (RandomUniform a b d) = True"
| "is_draw e = False"

fun is_sleep :: "'d event \<Rightarrow> bool" where
  "is_sleep (TimeSleep d) = True"
| "is_sleep e = False"

definition attempts_made :: "'d event list \<Rightarrow> nat" where
  "attempts_made evs = length (filter is_run evs)"

definition failed_attempts :: "'d event list \<Rightarrow> nat" where
  "failed_attempts evs = length (filter is_failed_run evs)"

definition delays_drawn :: "'d event list \<Rightarrow> nat" where
  "delays_drawn evs = length (filter is_draw evs)"

definition sleeps :: "'d event list \<Rightarrow> nat" where
  "sleeps evs = length (filter is_sleep evs)"

abbreviation passes_validation :: "'d world \<Rightarrow> string \<Rightarrow> bool" where
  "passes_validation w script_path \<equiv>
     fst (validate_script (files w) script_path :: bool \<times> 'd event list)"


text \<open>
  What the body of the loop does on attempt \<open>k + 1\<close>: it goes on to the next attempt
  (\<open>Returned True\<close>), makes \<^verbatim>\<open>run_script\<close> return false, or raises.
\<close>

definition attempt_outcome :: "'d world \<Rightarrow> string \<Rightarrow> nat \<Rightarrow> outcome" where
  "attempt_outcome w script_path k =
     (case child w k [''python'', script_path] of
        Completed result \<Rightarrow> Returned (returncode result = 0)
      | OutputNotText status \<Rightarrow> Raised ''UnicodeDecodeError''
      | NotStarted e \<Rightarrow> Raised e)"


definition all_zeros :: "string \<Rightarrow> bool" where
  "all_zeros g = list_all (\<lambda>c. c = CHR ''0'') g"

text \<open>The submitted units whose future satisfies \<open>P\<close>, in the order of submission.\<close>

definition units_with :: "string list \<Rightarrow> (nat \<Rightarrow> bool) \<Rightarrow> string list" where
  "units_with ss P = map ((!) ss) (filter P [0..<length ss])"

text \<open>The error record that the handler writes for future \<open>i\<close>, if its result raises.\<close>

definition raised_log :: "string list \<Rightarrow> (nat \<Rightarrow> outcome) \<Rightarrow> nat \<Rightarrow> 'd event list" where
  "raised_log ss result i =
     (case result i of
        Raised e \<Rightarrow> [Log ERROR (UnexpectedError (ss ! i) e)]
      | Returned b \<Rightarrow> [])"

section \<open>Example environments\<close>

definition plain_file :: fs_entry where
  "plain_file = \<lparr>kind = RegularFile, readable = True\<rparr>"

definition example_files :: filesystem where
  "example_files =
     [''work/unit-3.py'' \<mapsto> plain_file,
      ''work/unit-0.py'' \<mapsto> plain_file,
      ''work/once-1.py'' \<mapsto> plain_file,
      ''work/plain.py'' \<mapsto> plain_file,
      ''work/locked-2.py'' \<mapsto> \<lparr>kind = RegularFile, readable = False\<rparr>,
      ''work'' \<mapsto> \<lparr>kind = Directory, readable = True\<rparr>]"

definition five_seconds :: "nat \<Rightarrow> pyfloat \<Rightarrow> pyfloat \<Rightarrow> nat" where
  "five_seconds k a b = 5"

definition exits_zero :: "nat \<Rightarrow> string list \<Rightarrow> run_outcome" where
  "exits_zero k argv = Completed \<lparr>returncode = 0, stdout = [], stderr = []\<rparr>"

definition second_fails :: "nat \<Rightarrow> string list \<Rightarrow> run_outcome" where
  "second_fails k argv =
     Completed \<lparr>returncode = (if k = 1 then 1 else 0), stdout = [], stderr = ''Traceback''\<rparr>"

definition binary_output :: "nat \<Rightarrow> string list \<Rightarrow> run_outcome" where
  "binary_output k argv = OutputNotText 0"

definition binary_crash :: "nat \<Rightarrow> string list \<Rightarrow> run_outcome" where
  "binary_crash k argv = OutputNotText 1"

definition no_interpreter :: "nat \<Rightarrow> string list \<Rightarrow> run_outcome" where
  "no_interpreter k argv = NotStarted ''FileNotFoundError''"

definition calm_world :: "nat world" where
  "calm_world = \<lparr>files = example_files, random_uniform = five_seconds, child = exits_zero\<rparr>"

definition flaky_world :: "nat world" where
  "flaky_world = \<lparr>files = example_files, random_uniform = five_seconds, child = second_fails\<rparr>"

definition garbled_world :: "nat world" where
  "garbled_world =
     \<lparr>files = example_files, random_uniform = five_seconds, child = binary_output\<rparr>"

definition crashing_world :: "nat world" where
  "crashing_world =
     \<lparr>files = example_files, random_uniform = five_seconds, child = binary_crash\<rparr>"

definition bare_world :: "nat world" where
  "bare_world =
     \<lparr>files = example_files, random_uniform = five_seconds, child = no_interpreter\<rparr>"


definition one_raises :: "nat \<Rightarrow> outcome" where
  "one_raises i = (if i = 0 then Raised ''BrokenProcessPool'' else Returned (i \<noteq> 2))"

definition finish_order :: "nat list" where
  "finish_order = [3, 1, 0, 4, 2]"

definition another_order :: "nat list" where
  "another_order = [4, 0, 2, 1, 3]"

section \<open>The pattern, characterised\<close>

lemma not_digit_dot: "\<not> is_digit CHR ''.''"
  by (simp add: is_digit_def)

lemma not_digit_hyphen: "\<not> is_digit CHR ''-''"
  by (simp add: is_digit_def)

lemma match_here_digits:
  assumes "g \<noteq> []" "list_all is_digit g" "t = ''.py'' \<or> t = ''.py'' @ [CHR 0x0A]"
  shows "match_here (CHR ''-'' # g @ t) = Some g"
proof -
  from assms(2) have d: "\<And>c. c \<in> set g \<Longrightarrow> is_digit c"
    by (simp add: list_all_iff)
  from assms(3) have "takeWhile is_digit t = []" "dropWhile is_digit t = t"
    by (auto simp: not_digit_dot)
  with d have "takeWhile is_digit (g @ t) = g" "dropWhile is_digit (g @ t) = t"
    by simp_all
  with assms(1,3) show ?thesis
    by (auto simp: match_here_def Let_def)
qed

lemma match_here_SomeD:
  assumes "match_here s = Some g"
  shows "g \<noteq> [] \<and> list_all is_digit g \<and>
         (s = CHR ''-'' # g @ ''.py'' \<or> s = CHR ''-'' # g @ ''.py'' @ [CHR 0x0A])"
proof (cases s)
  case Nil
  with assms show ?thesis by (simp add: match_here_def)
next
  case (Cons c r)
  with assms have c: "c = CHR ''-''"
    by (auto simp: match_here_def split: if_splits)
  from assms Cons c have g: "g = takeWhile is_digit r" and ne: "g \<noteq> []"
    and rest: "dropWhile is_digit r = ''.py'' \<or> dropWhile is_digit r = ''.py'' @ [CHR 0x0A]"
    by (auto simp: match_here_def Let_def split: if_splits)
  have "r = g @ dropWhile is_digit r"
    by (simp add: g)
  moreover have "list_all is_digit g"
    unfolding g list_all_iff by (auto dest: set_takeWhileD)
  ultimately show ?thesis
    using Cons c ne rest by auto
qed

lemma re_search_SomeD:
  "re_search s = Some g \<Longrightarrow> \<exists>pre t. s = pre @ t \<and> match_here t = Some g"
proof (induction s)
  case Nil
  then show ?case by (simp add: match_here_def)
next
  case (Cons c cs)
  show ?case
  proof (cases "match_here (c # cs)")
    case (Some h)
    with Cons.prems have "h = g" by simp
    with Some have "c # cs = [] @ (c # cs) \<and> match_here (c # cs) = Some g" by simp
    then show ?thesis by blast
  next
    case None
    with Cons.prems have "re_search cs = Some g" by simp
    with Cons.IH obtain pre t where "cs = pre @ t" "match_here t = Some g" by blast
    then have "c # cs = (c # pre) @ t \<and> match_here t = Some g" by simp
    then show ?thesis by blast
  qed
qed

lemma re_search_finds:
  "match_here t = Some g \<Longrightarrow> \<exists>h. re_search (pre @ t) = Some h"
proof (induction pre)
  case Nil
  then show ?case by (cases t) (simp_all add: match_here_def)
next
  case (Cons c pre)
  then show ?case by (cases "match_here (c # pre @ t)") auto
qed

lemma digits_before_hyphen:
  assumes "list_all is_digit g" "list_all is_digit h"
    and "rev g @ CHR ''-'' # a = rev h @ CHR ''-'' # b"
  shows "g = h"
proof -
  have tw: "takeWhile is_digit (rev g @ CHR ''-'' # a) = rev g" if "list_all is_digit g" for g a
  proof -
    from that have "\<And>c. c \<in> set (rev g) \<Longrightarrow> is_digit c"
      by (simp add: list_all_iff)
    then have "takeWhile is_digit (rev g @ CHR ''-'' # a) = rev g @ takeWhile is_digit (CHR ''-'' # a)"
      by (rule takeWhile_append2)
    then show ?thesis by (simp add: not_digit_hyphen)
  qed
  from tw [OF assms(1), of a] tw [OF assms(2), of b] assms(3) have "rev g = rev h" by simp
  then show ?thesis by simp
qed

lemma match_unique:
  assumes "match_here t = Some g" "match_here u = Some h" "pre @ t = pre' @ u"
  shows "g = h"
proof -
  from match_here_SomeD [OF assms(1)] have g: "list_all is_digit g"
    and t: "t = CHR ''-'' # g @ ''.py'' \<or> t = CHR ''-'' # g @ ''.py'' @ [CHR 0x0A]" by simp_all
  from match_here_SomeD [OF assms(2)] have h: "list_all is_digit h"
    and u: "u = CHR ''-'' # h @ ''.py'' \<or> u = CHR ''-'' # h @ ''.py'' @ [CHR 0x0A]" by simp_all
  from assms(3) have r: "rev t @ rev pre = rev u @ rev pre'"
    by (metis rev_append)
  from t u r have "rev g @ CHR ''-'' # rev pre = rev h @ CHR ''-'' # rev pre'"
    by auto
  with g h show ?thesis by (rule digits_before_hyphen)
qed

lemma re_search_suffix:
  assumes "g \<noteq> []" "list_all is_digit g" "t = ''.py'' \<or> t = ''.py'' @ [CHR 0x0A]"
  shows "re_search (pre @ CHR ''-'' # g @ t) = Some g"
proof -
  have m: "match_here (CHR ''-'' # g @ t) = Some g"
    using assms by (rule match_here_digits)
  then obtain h where h: "re_search (pre @ CHR ''-'' # g @ t) = Some h"
    using re_search_finds by blast
  then obtain pre' u where "pre @ CHR ''-'' # g @ t = pre' @ u" "match_here u = Some h"
    using re_search_SomeD by blast
  with m have "g = h" using match_unique by blast
  with h show ?thesis by simp
qed

lemma re_search_None:
  assumes "\<not> (\<exists>pre g. g \<noteq> [] \<and> list_all is_digit g \<and>
             (s = pre @ CHR ''-'' # g @ ''.py'' \<or> s = pre @ CHR ''-'' # g @ ''.py'' @ [CHR 0x0A]))"
  shows "re_search s = None"
proof (rule ccontr)
  assume "re_search s \<noteq> None"
  then obtain g where "re_search s = Some g" by auto
  then obtain pre t where "s = pre @ t" "match_here t = Some g"
    using re_search_SomeD by blast
  with match_here_SomeD [of t g] assms show False by auto
qed

lemma int_of_digits_nonneg_aux:
  "list_all is_digit g \<Longrightarrow> 0 \<le> a \<Longrightarrow> 0 \<le> foldl (\<lambda>a c. 10 * a + digit_value c) a g"
proof (induction g arbitrary: a)
  case Nil
  then show ?case by simp
next
  case (Cons c g)
  from Cons.prems have "0 \<le> digit_value c"
    by (simp add: is_digit_def digit_value_def)
  with Cons.prems have "0 \<le> 10 * a + digit_value c" by simp
  with Cons show ?case by simp
qed

lemma int_of_digits_nonneg: "list_all is_digit g \<Longrightarrow> 0 \<le> int_of_digits g"
  by (simp add: int_of_digits_def int_of_digits_nonneg_aux)

lemma int_of_digits_zero_aux:
  "list_all is_digit g \<Longrightarrow> 0 \<le> a \<Longrightarrow>
   foldl (\<lambda>a c. 10 * a + digit_value c) a g = 0 \<longleftrightarrow> a = 0 \<and> all_zeros g"
proof (induction g arbitrary: a)
  case Nil
  then show ?case by (simp add: all_zeros_def)
next
  case (Cons c g)
  from Cons.prems have d: "0 \<le> digit_value c"
    by (simp add: is_digit_def digit_value_def)
  have z: "digit_value c = 0 \<longleftrightarrow> c = CHR ''0''"
  proof
    assume "digit_value c = 0"
    then have "of_char c = (of_char CHR ''0'' :: nat)"
      by (simp add: digit_value_def)
    then show "c = CHR ''0''"
      by (simp only: of_char_eq_iff)
  qed (simp add: digit_value_def)
  from Cons.prems d have "0 \<le> 10 * a + digit_value c" by simp
  with Cons.IH [of "10 * a + digit_value c"] Cons.prems
  have "foldl (\<lambda>a c. 10 * a + digit_value c) a (c # g) = 0 \<longleftrightarrow>
        10 * a + digit_value c = 0 \<and> all_zeros g"
    by simp
  also have "10 * a + digit_value c = 0 \<longleftrightarrow> a = 0 \<and> c = CHR ''0''"
    using Cons.prems(2) d z by auto
  finally show ?case by (auto simp: all_zeros_def)
qed

lemma int_of_digits_zero:
  "list_all is_digit g \<Longrightarrow> int_of_digits g = 0 \<longleftrightarrow> all_zeros g"
  by (simp add: int_of_digits_def int_of_digits_zero_aux)

lemma re_search_digits: "re_search s = Some g \<Longrightarrow> g \<noteq> [] \<and> list_all is_digit g"
  using re_search_SomeD match_here_SomeD by blast

lemma fst_parse_repetitions:
  "fst (parse_repetitions p) =
     (case re_search (basename p) of Some g \<Rightarrow> int_of_digits g | None \<Rightarrow> 1)"
  by (simp add: parse_repetitions_def Let_def split: option.splits)

lemma parse_repetitions_nonneg: "0 \<le> fst (parse_repetitions p)"
  by (auto simp: fst_parse_repetitions split: option.splits
        dest: re_search_digits intro: int_of_digits_nonneg)

lemma parse_repetitions_suffix:
  assumes "basename p = pre @ ''-'' @ ds @ ''.py''" "ds \<noteq> []" "list_all is_digit ds"
  shows "parse_repetitions p =
           (int_of_digits ds, [Log INFO (WillBeRepeated (basename p) (int_of_digits ds))])"
proof -
  have "re_search (pre @ CHR ''-'' # ds @ ''.py'') = Some ds"
    using assms(2,3) by (rule re_search_suffix) simp
  with assms(1) show ?thesis
    by (simp add: parse_repetitions_def Let_def)
qed

lemma parse_repetitions_default:
  assumes "\<not> (\<exists>pre g. g \<noteq> [] \<and> list_all is_digit g \<and>
             (basename p = pre @ CHR ''-'' # g @ ''.py'' \<or>
              basename p = pre @ CHR ''-'' # g @ ''.py'' @ [CHR 0x0A]))"
  shows "parse_repetitions p = (1, [Log WARNING (NoRepetitionNumber (basename p))])"
  using re_search_None [OF assms] by (simp add: parse_repetitions_def Let_def)

section \<open>The attempt loop\<close>

declare attempts.simps [simp del]

lemma attempts_stop: "\<not> int a < n \<Longrightarrow> attempts w p n a = (Returned True, [])"
  by (simp add: attempts.simps)

lemma attempts_step:
  assumes "int a < n" "attempt_outcome w p a = Returned True"
  shows "attempts w p n a =
     (fst (attempts w p n (Suc a)),
      [RandomUniform (Finite 3) (Finite 10) (random_uniform w a (Finite 3) (Finite 10)),
       Log INFO (AttemptDelay (int a + 1) n p (random_uniform w a (Finite 3) (Finite 10))),
       TimeSleep (random_uniform w a (Finite 3) (Finite 10)),
       SubprocessRun [''python'', p] 0,
       Log INFO (SuccessfullyCompleted p (int a + 1))] @ snd (attempts w p n (Suc a)))"
  using assms
  by (auto simp: attempts.simps [of w p n a] Let_def attempt_outcome_def get_random_delay_def
        apsnd_def map_prod_def split_beta split: run_outcome.splits)

lemma attempts_fail:
  assumes "int a < n" "child w a [''python'', p] = Completed result" "returncode result \<noteq> 0"
  shows "attempts w p n a =
     (Returned False,
      [RandomUniform (Finite 3) (Finite 10) (random_uniform w a (Finite 3) (Finite 10)),
       Log INFO (AttemptDelay (int a + 1) n p (random_uniform w a (Finite 3) (Finite 10))),
       TimeSleep (random_uniform w a (Finite 3) (Finite 10)),
       SubprocessRun [''python'', p] (returncode result),
       Log ERROR (ErrorExecuting p (int a + 1) n),
       Log ERROR (STDOUT (stdout result)),
       Log ERROR (STDERR (stderr result))])"
  using assms
  by (simp add: attempts.simps [of w p n a] Let_def get_random_delay_def)

lemma attempts_raise:
  assumes "int a < n" "attempt_outcome w p a = Raised e"
  shows "attempts w p n a =
     (Raised e,
      [RandomUniform (Finite 3) (Finite 10) (random_uniform w a (Finite 3) (Finite 10)),
       Log INFO (AttemptDelay (int a + 1) n p (random_uniform w a (Finite 3) (Finite 10))),
       TimeSleep (random_uniform w a (Finite 3) (Finite 10)),
       SubprocessRaised [''python'', p] e])"
  using assms
  by (simp add: attempts.simps [of w p n a] Let_def attempt_outcome_def get_random_delay_def
        split: run_outcome.splits)

text \<open>An attempt that does not succeed is the last one, and decides the result.\<close>

lemma attempts_halt:
  assumes "int a < n" "attempt_outcome w p a \<noteq> Returned True"
  shows "fst (attempts w p n a) = attempt_outcome w p a"
    and "attempts_made (snd (attempts w p n a)) = 1"
    and "failed_attempts (snd (attempts w p n a)) =
           (if attempt_outcome w p a = Returned False then 1 else 0)"
    and "delays_drawn (snd (attempts w p n a)) = 1"
    and "sleeps (snd (attempts w p n a)) = 1"
proof -
  consider (fail) result where "child w a [''python'', p] = Completed result"
      "returncode result \<noteq> 0"
    | (raise) e where "attempt_outcome w p a = Raised e"
    using assms(2) by (auto simp: attempt_outcome_def split: run_outcome.splits)
  then have "fst (attempts w p n a) = attempt_outcome w p a \<and>
      attempts_made (snd (attempts w p n a)) = 1 \<and>
      failed_attempts (snd (attempts w p n a)) =
        (if attempt_outcome w p a = Returned False then 1 else 0) \<and>
      delays_drawn (snd (attempts w p n a)) = 1 \<and>
      sleeps (snd (attempts w p n a)) = 1"
  proof cases
    case fail
    then have "attempt_outcome w p a = Returned False"
      by (simp add: attempt_outcome_def)
    with fail assms(1) show ?thesis
      by (simp add: attempts_fail attempts_made_def failed_attempts_def delays_drawn_def
            sleeps_def)
  next
    case raise
    with assms(1) show ?thesis
      by (simp add: attempts_raise attempts_made_def failed_attempts_def delays_drawn_def
            sleeps_def)
  qed
  then show "fst (attempts w p n a) = attempt_outcome w p a"
    and "attempts_made (snd (attempts w p n a)) = 1"
    and "failed_attempts (snd (attempts w p n a)) =
           (if attempt_outcome w p a = Returned False then 1 else 0)"
    and "delays_drawn (snd (attempts w p n a)) = 1"
    and "sleeps (snd (attempts w p n a)) = 1"
    by simp_all
qed

lemma attempts_induct [case_names stop halt step]:
  assumes stop: "\<And>a. \<not> int a < n \<Longrightarrow> P a"
    and halt: "\<And>a. int a < n \<Longrightarrow> attempt_outcome w p a \<noteq> Returned True \<Longrightarrow> P a"
    and step: "\<And>a. int a < n \<Longrightarrow> attempt_outcome w p a = Returned True \<Longrightarrow> P (Suc a) \<Longrightarrow> P a"
  shows "P a"
proof (induction "nat n - a" arbitrary: a)
  case 0
  then have "\<not> int a < n" by linarith
  then show ?case by (rule stop)
next
  case (Suc m)
  then have lt: "int a < n" by linarith
  from Suc.hyps(2) have "m = nat n - Suc a" by simp
  then have "P (Suc a)" by (rule Suc.hyps(1))
  with lt show ?case
    by (cases "attempt_outcome w p a = Returned True") (auto intro: halt step)
qed



lemma attempts_made_all:
  "fst (attempts w p n a) = Returned True \<Longrightarrow>
   attempts_made (snd (attempts w p n a)) = nat n - a"
proof (induction a rule: attempts_induct [where n = n and w = w and p = p])
  case (stop a)
  then show ?case by (simp add: attempts_stop attempts_made_def)
next
  case (halt a)
  then show ?case by (simp add: attempts_halt)
next
  case (step a)
  then show ?case by (simp add: attempts_step attempts_made_def)
qed


lemma attempts_draws_sleeps:
  "delays_drawn (snd (attempts w p n a)) = attempts_made (snd (attempts w p n a)) \<and>
   sleeps (snd (attempts w p n a)) = attempts_made (snd (attempts w p n a))"
proof (induction a rule: attempts_induct [where n = n and w = w and p = p])
  case (stop a)
  then show ?case by (simp add: attempts_stop delays_drawn_def sleeps_def attempts_made_def)
next
  case (halt a)
  then show ?case by (simp add: attempts_halt)
next
  case (step a)
  then show ?case by (simp add: attempts_step delays_drawn_def sleeps_def attempts_made_def)
qed


section \<open>The runner around the loop\<close>

lemma counts_append:
  "attempts_made (xs @ ys) = attempts_made xs + attempts_made ys"
  "failed_attempts (xs @ ys) = failed_attempts xs + failed_attempts ys"
  "delays_drawn (xs @ ys) = delays_drawn xs + delays_drawn ys"
  "sleeps (xs @ ys) = sleeps xs + sleeps ys"
  by (simp_all add: attempts_made_def failed_attempts_def delays_drawn_def sleeps_def)

lemma validate_script_quiet:
  "attempts_made (snd (validate_script fs p)) = 0"
  "failed_attempts (snd (validate_script fs p)) = 0"
  "delays_drawn (snd (validate_script fs p)) = 0"
  "sleeps (snd (validate_script fs p)) = 0"
  by (simp_all add: validate_script_def attempts_made_def failed_attempts_def
        delays_drawn_def sleeps_def)

lemma parse_repetitions_quiet:
  "attempts_made (snd (parse_repetitions p)) = 0"
  "failed_attempts (snd (parse_repetitions p)) = 0"
  "delays_drawn (snd (parse_repetitions p)) = 0"
  "sleeps (snd (parse_repetitions p)) = 0"
  by (simp_all add: parse_repetitions_def Let_def attempts_made_def failed_attempts_def
        delays_drawn_def sleeps_def split: option.splits)

lemma validate_script_fst:
  "fst (validate_script fs p) \<longleftrightarrow>
     os_path_exists fs p \<and> os_path_isfile fs p \<and> os_access_R_OK fs p"
  by (simp add: validate_script_def)

lemma run_script_invalid:
  "\<not> passes_validation w p \<Longrightarrow>
   run_script w p = (Returned False, snd (validate_script (files w) p))"
  by (simp add: run_script_def Let_def)

lemma run_script_valid:
  "passes_validation w p \<Longrightarrow>
   run_script w p =
     (fst (attempts w p (fst (parse_repetitions p :: int \<times> 'd event list)) 0),
      snd (validate_script (files w) p) @ snd (parse_repetitions p) @
      snd (attempts w p (fst (parse_repetitions p :: int \<times> 'd event list)) 0))"
  for w :: "'d world"
  by (simp add: run_script_def Let_def)


section \<open>The loop over completed futures\<close>

lemma submit_all_lookup:
  "submit_all ss i = (if i < length ss then Some (ss ! i) else None)"
proof (cases "i < length ss")
  case True
  have "map_of (zip [0..<length ss] ss) ([0..<length ss] ! i) = Some (ss ! i)"
    using True by (intro map_of_zip_nth) simp_all
  with True show ?thesis by (simp add: submit_all_def)
next
  case False
  have "map_of (zip [0..<length ss] ss) i = None \<longleftrightarrow> i \<notin> set [0..<length ss]"
    by (rule map_of_zip_is_None) simp
  with False show ?thesis by (simp add: submit_all_def)
qed

lemma record_result_fields:
  "successful_scripts (record_result script r s) =
     successful_scripts s @ (if r = Returned True then [script] else [])"
  "failed_scripts (record_result script r s) =
     failed_scripts s @ (if r = Returned True then [] else [script])"
  "logged (record_result script r s) =
     logged s @ (case r of Raised e \<Rightarrow> [Log ERROR (UnexpectedError script e)] | Returned b \<Rightarrow> [])"
  by (auto simp: record_result_def split: outcome.splits)

lemma process_completed_submitted:
  assumes "\<forall>i \<in> set completed. i < length ss"
  shows "\<exists>s'. process_completed (submit_all ss) result completed s = Inr s' \<and>
     successful_scripts s' =
       successful_scripts s @ map ((!) ss) (filter (\<lambda>i. result i = Returned True) completed) \<and>
     failed_scripts s' =
       failed_scripts s @ map ((!) ss) (filter (\<lambda>i. result i \<noteq> Returned True) completed) \<and>
     logged s' = logged s @ concat (map (raised_log ss result) completed)"
  using assms
proof (induction completed arbitrary: s)
  case Nil
  then show ?case by simp
next
  case (Cons i rest)
  then have i: "submit_all ss i = Some (ss ! i)"
    by (simp add: submit_all_lookup)
  from Cons.prems have "\<forall>i \<in> set rest. i < length ss" by simp
  from Cons.IH [OF this, of "record_result (ss ! i) (result i) s"]
  obtain s' where s': "process_completed (submit_all ss) result rest
        (record_result (ss ! i) (result i) s) = Inr s'"
    "successful_scripts s' = successful_scripts (record_result (ss ! i) (result i) s) @
       map ((!) ss) (filter (\<lambda>i. result i = Returned True) rest)"
    "failed_scripts s' = failed_scripts (record_result (ss ! i) (result i) s) @
       map ((!) ss) (filter (\<lambda>i. result i \<noteq> Returned True) rest)"
    "logged s' = logged (record_result (ss ! i) (result i) s) @
       concat (map (raised_log ss result) rest)"
    by blast
  from i s'(1) have "process_completed (submit_all ss) result (i # rest) s = Inr s'"
    by simp
  moreover from s'(2) have "successful_scripts s' =
       successful_scripts s @ map ((!) ss) (filter (\<lambda>i. result i = Returned True) (i # rest))"
    by (simp add: record_result_fields)
  moreover from s'(3) have "failed_scripts s' =
       failed_scripts s @ map ((!) ss) (filter (\<lambda>i. result i \<noteq> Returned True) (i # rest))"
    by (simp add: record_result_fields)
  moreover from s'(4) have "logged s' = logged s @ concat (map (raised_log ss result) (i # rest))"
    by (simp add: record_result_fields raised_log_def)
  ultimately show ?case by blast
qed

lemma orchestrate_submitted:
  assumes "mset completed = mset [0..<length ss]"
  shows "\<exists>s :: 'd summary. orchestrate ss result completed = Inr s \<and>
     successful_scripts s = map ((!) ss) (filter (\<lambda>i. result i = Returned True) completed) \<and>
     failed_scripts s = map ((!) ss) (filter (\<lambda>i. result i \<noteq> Returned True) completed) \<and>
     logged s = concat (map (raised_log ss result) completed) @
       [Log INFO ExecutionSummary,
        Log INFO (SuccessfulScripts (successful_scripts s)),
        Log INFO (FailedScripts (failed_scripts s))]"
proof -
  let ?init = "\<lparr>successful_scripts = [], failed_scripts = [], logged = []\<rparr> :: 'd summary"
  from assms have "set completed = set [0..<length ss]"
    by (rule mset_eq_setD)
  then have "\<forall>i \<in> set completed. i < length ss" by simp
  from process_completed_submitted [OF this, of result ?init]
  obtain s' where s': "process_completed (submit_all ss) result completed ?init = Inr s'"
    "successful_scripts s' = map ((!) ss) (filter (\<lambda>i. result i = Returned True) completed)"
    "failed_scripts s' = map ((!) ss) (filter (\<lambda>i. result i \<noteq> Returned True) completed)"
    "logged s' = concat (map (raised_log ss result) completed)"
    by auto
  from s'(1) have "orchestrate ss result completed = Inr (log_summary s')"
    by (simp add: orchestrate_def)
  moreover from s'(2-4) have
    "successful_scripts (log_summary s') =
       map ((!) ss) (filter (\<lambda>i. result i = Returned True) completed)"
    "failed_scripts (log_summary s') =
       map ((!) ss) (filter (\<lambda>i. result i \<noteq> Returned True) completed)"
    "logged (log_summary s') = concat (map (raised_log ss result) completed) @
       [Log INFO ExecutionSummary,
        Log INFO (SuccessfulScripts (successful_scripts (log_summary s'))),
        Log INFO (FailedScripts (failed_scripts (log_summary s')))]"
    by (simp_all add: log_summary_def)
  ultimately show ?thesis by blast
qed

lemma mset_selected:
  assumes "mset completed = mset [0..<n]"
  shows "mset (map f (filter P completed)) = mset (map f (filter P [0..<n]))"
proof -
  have "mset (map f (filter P completed)) = image_mset f (filter_mset P (mset completed))"
    by simp
  also have "\<dots> = image_mset f (filter_mset P (mset [0..<n]))"
    by (simp only: assms)
  also have "\<dots> = mset (map f (filter P [0..<n]))"
    by simp
  finally show ?thesis .
qed

lemma mset_split_nth:
  "mset (map ((!) ss) (filter P [0..<length ss])) +
   mset (map ((!) ss) (filter (\<lambda>i. \<not> P i) [0..<length ss])) = mset ss"
proof -
  have "mset (map ((!) ss) (filter P [0..<length ss])) +
        mset (map ((!) ss) (filter (\<lambda>i. \<not> P i) [0..<length ss])) =
        image_mset ((!) ss) (filter_mset P (mset [0..<length ss]) +
                             filter_mset (\<lambda>i. \<not> P i) (mset [0..<length ss]))"
    by simp
  also have "\<dots> = image_mset ((!) ss) (mset [0..<length ss])"
    by (simp only: multiset_partition [symmetric])
  also have "\<dots> = mset (map ((!) ss) [0..<length ss])"
    by simp
  also have "\<dots> = mset ss"
    by (simp only: map_nth)
  finally show ?thesis .
qed

section \<open>The example environments, evaluated\<close>

lemma example_files_simps:
  "example_files ''work/unit-3.py'' = Some plain_file"
  "example_files ''work/unit-0.py'' = Some plain_file"
  "example_files ''work/once-1.py'' = Some plain_file"
  "example_files ''work/plain.py'' = Some plain_file"
  "example_files ''work/locked-2.py'' = Some \<lparr>kind = RegularFile, readable = False\<rparr>"
  "example_files ''work'' = Some \<lparr>kind = Directory, readable = True\<rparr>"
  "example_files ''work/missing-2.py'' = None"
  by (simp_all add: example_files_def)

lemma example_validation:
  "passes_validation calm_world ''work/unit-3.py''"
  "passes_validation flaky_world ''work/unit-3.py''"
  "passes_validation calm_world ''work/unit-0.py''"
  "\<not> passes_validation calm_world ''work''"
  "\<not> passes_validation calm_world ''work/missing-2.py''"
  "\<not> passes_validation calm_world ''work/locked-2.py''"
  "passes_validation garbled_world ''work/once-1.py''"
  "passes_validation crashing_world ''work/unit-3.py''"
  "passes_validation bare_world ''work/unit-3.py''"
  by (simp_all add: validate_script_fst calm_world_def flaky_world_def garbled_world_def
        crashing_world_def bare_world_def example_files_simps
        os_path_exists_def os_path_isfile_def os_access_R_OK_def plain_file_def)




lemma example_orders:
  "mset finish_order = mset [0..<length scripts]"
  "mset another_order = mset [0..<length scripts]"
proof -
  have "[0..<length scripts] = [0, 1, 2, 3, 4]"
    by code_simp
  then show "mset finish_order = mset [0..<length scripts]"
    "mset another_order = mset [0..<length scripts]"
    by (simp_all add: finish_order_def another_order_def)
qed

section \<open>Rounding to the nearest float\<close>































section \<open>Claims about the repetition parser\<close>

text \<open>
  C2. The parser returns the number in the final hyphen-number group of a file name that
  ends with \<^verbatim>\<open>-<digits>.py\<close> (lemma \<open>parse_repetitions_suffix\<close>), and 1 with a warning
  for a name with no such group (lemma \<open>parse_repetitions_default\<close>). The claim says the
  same of every other file name, and there the code differs: the file name
  \<^verbatim>\<open>a-3.py\<close> followed by a newline does not end with \<^verbatim>\<open>.py\<close>, yet the
  pattern's \<^verbatim>\<open>$\<close> accepts it, so the parser returns 3 and logs at info level where
  the claim has 1 and a warning.
\<close>

theorem parse_repetitions_trailing_newline:
  "parse_repetitions (''work/a-3.py'' @ [CHR 0x0A]) =
     (3, [Log INFO (WillBeRepeated (''a-3.py'' @ [CHR 0x0A]) 3)])"
  by (simp add: parse_repetitions_def basename_def match_here_def is_digit_def
        int_of_digits_def digit_value_def)

text \<open>
  C9, as stated: the parser returns an integer greater than or equal to 1. It fails at
  \<^verbatim>\<open>batch-0.py\<close>, where the code returns 0.
\<close>

theorem parse_repetitions_zero_counterexample:
  "\<not> 1 \<le> fst (parse_repetitions ''batch-0.py'' :: int \<times> nat event list)"
  by code_simp

text \<open>
  C9, amended: for every path the parser returns a non-negative integer, and it returns 0
  exactly when the pattern matches and the matched digits are all zeros; in every other
  case the result is at least 1.
\<close>

theorem parse_repetitions_range:
  "0 \<le> fst (parse_repetitions p :: int \<times> 'd event list) \<and>
   (fst (parse_repetitions p :: int \<times> 'd event list) = 0 \<longleftrightarrow>
      (\<exists>g. re_search (basename p) = Some g \<and> all_zeros g)) \<and>
   (fst (parse_repetitions p :: int \<times> 'd event list) \<noteq> 0 \<longleftrightarrow>
      1 \<le> fst (parse_repetitions p :: int \<times> 'd event list))"
proof -
  have nn: "0 \<le> fst (parse_repetitions p :: int \<times> 'd event list)"
    by (rule parse_repetitions_nonneg)
  have "fst (parse_repetitions p :: int \<times> 'd event list) = 0 \<longleftrightarrow>
          (\<exists>g. re_search (basename p) = Some g \<and> all_zeros g)"
  proof (cases "re_search (basename p)")
    case None
    then show ?thesis by (simp add: fst_parse_repetitions)
  next
    case (Some g)
    then have "list_all is_digit g" by (simp add: re_search_digits)
    with Some show ?thesis
      by (simp add: fst_parse_repetitions int_of_digits_zero)
  qed
  with nn show ?thesis by auto
qed

theorem parse_repetitions_range_witness:
  "0 \<le> fst (parse_repetitions ''work/unit-3.py'' :: int \<times> nat event list) \<and>
   fst (parse_repetitions ''work/unit-0.py'' :: int \<times> nat event list) = 0 \<and>
   re_search (basename ''work/unit-0.py'') = Some ''0'' \<and> all_zeros ''0'' \<and>
   1 \<le> fst (parse_repetitions ''work/plain.py'' :: int \<times> nat event list)"
proof -
  have "re_search (basename ''work/unit-0.py'') = Some ''0''"
    by code_simp
  moreover have "all_zeros ''0''"
    by (simp add: all_zeros_def)
  moreover have "fst (parse_repetitions ''work/plain.py'' :: int \<times> nat event list) \<noteq> 0"
    by code_simp
  ultimately show ?thesis
    using parse_repetitions_range [of "''work/unit-3.py''", where ?'d = nat]
      parse_repetitions_range [of "''work/unit-0.py''", where ?'d = nat]
      parse_repetitions_range [of "''work/plain.py''", where ?'d = nat]
    by blast
qed

section \<open>Claims about the script validator\<close>

text \<open>
  C4. The validator returns true exactly when the path exists, names a regular file and is
  readable. It asks the three questions in that order and stops at the first that fails,
  logging one error that names the failed check; so it returns false for a path that
  names nothing and for a directory.
\<close>

theorem validate_script_checks:
  "(fst (validate_script fs p :: bool \<times> 'd event list) \<longleftrightarrow>
      os_path_exists fs p \<and> os_path_isfile fs p \<and> os_access_R_OK fs p) \<and>
   (fst (validate_script fs p :: bool \<times> 'd event list) \<longleftrightarrow>
      (\<exists>e. fs p = Some e \<and> kind e = RegularFile \<and> readable e)) \<and>
   (\<not> os_path_exists fs p \<longrightarrow>
      (validate_script fs p :: bool \<times> 'd event list) =
        (False, [OsPathExists p, Log ERROR (ScriptDoesNotExist p)])) \<and>
   (os_path_exists fs p \<and> \<not> os_path_isfile fs p \<longrightarrow>
      (validate_script fs p :: bool \<times> 'd event list) =
        (False, [OsPathExists p, OsPathIsfile p, Log ERROR (NotAFile p)])) \<and>
   (os_path_exists fs p \<and> os_path_isfile fs p \<and> \<not> os_access_R_OK fs p \<longrightarrow>
      (validate_script fs p :: bool \<times> 'd event list) =
        (False, [OsPathExists p, OsPathIsfile p, OsAccessR p,
                 Log ERROR (ScriptNotReadable p)])) \<and>
   (os_path_exists fs p \<and> os_path_isfile fs p \<and> os_access_R_OK fs p \<longrightarrow>
      (validate_script fs p :: bool \<times> 'd event list) =
        (True, [OsPathExists p, OsPathIsfile p, OsAccessR p])) \<and>
   (fs p = None \<longrightarrow> \<not> fst (validate_script fs p :: bool \<times> 'd event list)) \<and>
   ((\<exists>e. fs p = Some e \<and> kind e = Directory) \<longrightarrow>
      \<not> fst (validate_script fs p :: bool \<times> 'd event list))"
proof -
  have iff: "os_path_exists fs p \<and> os_path_isfile fs p \<and> os_access_R_OK fs p \<longleftrightarrow>
      (\<exists>e. fs p = Some e \<and> kind e = RegularFile \<and> readable e)"
    by (cases "fs p") (simp_all add: os_path_exists_def os_path_isfile_def os_access_R_OK_def)
  have none: "fs p = None \<Longrightarrow> \<not> os_path_exists fs p"
    by (simp add: os_path_exists_def)
  have dir: "\<exists>e. fs p = Some e \<and> kind e = Directory \<Longrightarrow> \<not> os_path_isfile fs p"
    by (auto simp: os_path_isfile_def)
  show ?thesis
    using iff none dir by (simp add: validate_script_def) blast
qed

theorem validate_script_checks_witness:
  "fst (validate_script example_files ''work/unit-3.py'' :: bool \<times> nat event list) \<and>
   (validate_script example_files ''work/missing-2.py'' :: bool \<times> nat event list) =
     (False, [OsPathExists ''work/missing-2.py'',
              Log ERROR (ScriptDoesNotExist ''work/missing-2.py'')]) \<and>
   (validate_script example_files ''work'' :: bool \<times> nat event list) =
     (False, [OsPathExists ''work'', OsPathIsfile ''work'', Log ERROR (NotAFile ''work'')]) \<and>
   (validate_script example_files ''work/locked-2.py'' :: bool \<times> nat event list) =
     (False, [OsPathExists ''work/locked-2.py'', OsPathIsfile ''work/locked-2.py'',
              OsAccessR ''work/locked-2.py'',
              Log ERROR (ScriptNotReadable ''work/locked-2.py'')]) \<and>
   (validate_script example_files ''work/unit-3.py'' :: bool \<times> nat event list) =
     (True, [OsPathExists ''work/unit-3.py'', OsPathIsfile ''work/unit-3.py'',
             OsAccessR ''work/unit-3.py''])"
  using validate_script_checks [of example_files "''work/unit-3.py''", where ?'d = nat]
    validate_script_checks [of example_files "''work/missing-2.py''", where ?'d = nat]
    validate_script_checks [of example_files "''work''", where ?'d = nat]
    validate_script_checks [of example_files "''work/locked-2.py''", where ?'d = nat]
  by (simp add: example_files_simps os_path_exists_def os_path_isfile_def os_access_R_OK_def
        plain_file_def)

section \<open>Claims about the script runner\<close>

text \<open>
  C5. For a path that fails validation the runner returns false with nothing done but the
  validation itself: no child process, no draw from the random source and no sleep.
\<close>

theorem run_script_invalid_immediate:
  assumes "\<not> passes_validation w p"
  shows "run_script w p = (Returned False, snd (validate_script (files w) p)) \<and>
         attempts_made (snd (run_script w p)) = 0 \<and>
         delays_drawn (snd (run_script w p)) = 0 \<and>
         sleeps (snd (run_script w p)) = 0"
  using assms by (simp add: run_script_invalid validate_script_quiet)

theorem run_script_invalid_immediate_witness:
  "run_script calm_world ''work/missing-2.py'' =
     (Returned False, [OsPathExists ''work/missing-2.py'',
                       Log ERROR (ScriptDoesNotExist ''work/missing-2.py'')]) \<and>
   attempts_made (snd (run_script calm_world ''work/missing-2.py'')) = 0 \<and>
   delays_drawn (snd (run_script calm_world ''work/missing-2.py'')) = 0 \<and>
   sleeps (snd (run_script calm_world ''work/missing-2.py'')) = 0"
proof -
  have "snd (validate_script (files calm_world) ''work/missing-2.py'' :: bool \<times> nat event list) =
      [OsPathExists ''work/missing-2.py'', Log ERROR (ScriptDoesNotExist ''work/missing-2.py'')]"
    by (simp add: validate_script_def calm_world_def example_files_simps os_path_exists_def)
  with run_script_invalid_immediate [OF example_validation(5)] show ?thesis
    by (simp add: attempts_made_def delays_drawn_def sleeps_def)
qed

text \<open>
  C10. A valid path whose file name ends in \<^verbatim>\<open>-0.py\<close> has the repeat count 0: the
  runner returns true with no attempt made, no delay drawn or slept and no child process.
\<close>

theorem run_script_zero_repetitions:
  assumes "passes_validation w p" "basename p = pre @ ''-0.py''"
  shows "fst (run_script w p) = Returned True \<and>
         attempts_made (snd (run_script w p)) = 0 \<and>
         delays_drawn (snd (run_script w p)) = 0 \<and>
         sleeps (snd (run_script w p)) = 0"
proof -
  from assms(2) have "basename p = pre @ ''-'' @ ''0'' @ ''.py''" by simp
  then have "(parse_repetitions p :: int \<times> 'a event list) =
      (int_of_digits ''0'', [Log INFO (WillBeRepeated (basename p) (int_of_digits ''0''))])"
    by (rule parse_repetitions_suffix) (simp_all add: is_digit_def)
  then have "fst (parse_repetitions p :: int \<times> 'a event list) = 0"
    by (simp add: int_of_digits_def digit_value_def)
  then have "attempts w p (fst (parse_repetitions p :: int \<times> 'a event list)) 0 =
      (Returned True, [])"
    by (simp add: attempts_stop)
  with assms(1) have "fst (run_script w p) = Returned True" "snd (run_script w p) =
      snd (validate_script (files w) p) @ snd (parse_repetitions p)"
    by (simp_all add: run_script_valid)
  then show ?thesis
    by (simp add: counts_append validate_script_quiet parse_repetitions_quiet)
qed

theorem run_script_zero_repetitions_witness:
  "fst (run_script calm_world ''work/unit-0.py'') = Returned True \<and>
   attempts_made (snd (run_script calm_world ''work/unit-0.py'')) = 0 \<and>
   delays_drawn (snd (run_script calm_world ''work/unit-0.py'')) = 0 \<and>
   sleeps (snd (run_script calm_world ''work/unit-0.py'')) = 0"
proof -
  have "basename ''work/unit-0.py'' = ''unit'' @ ''-0.py''"
    by (simp add: basename_def)
  with example_validation(3) show ?thesis
    by (rule run_script_zero_repetitions)
qed







section \<open>Claims about the orchestrator\<close>

text \<open>
  C8. Whatever the order in which the futures finish, the orchestrator ends normally, the
  successful list holds the units whose runner returned true and the failed list all the
  others, each submitted unit is in one of the two lists and, when the submitted paths
  are distinct, in one only and once; a second order of completion gives the same two
  collections.
\<close>

theorem orchestrate_partition:
  assumes "mset completed = mset [0..<length ss]"
    and "mset completed' = mset [0..<length ss]"
  shows "\<exists>(s :: 'd summary) (s' :: 'd summary).
     orchestrate ss result completed = Inr s \<and>
     orchestrate ss result completed' = Inr s' \<and>
     mset (successful_scripts s) = mset (units_with ss (\<lambda>i. result i = Returned True)) \<and>
     mset (failed_scripts s) = mset (units_with ss (\<lambda>i. result i \<noteq> Returned True)) \<and>
     mset (successful_scripts s) + mset (failed_scripts s) = mset ss \<and>
     (distinct ss \<longrightarrow> distinct (successful_scripts s @ failed_scripts s)) \<and>
     mset (successful_scripts s') = mset (successful_scripts s) \<and>
     mset (failed_scripts s') = mset (failed_scripts s)"
proof -
  let ?T = "\<lambda>i. result i = Returned True"
  let ?F = "\<lambda>i. result i \<noteq> Returned True"
  from orchestrate_submitted [OF assms(1), of result]
  obtain s :: "'d summary" where s: "orchestrate ss result completed = Inr s"
    "successful_scripts s = map ((!) ss) (filter ?T completed)"
    "failed_scripts s = map ((!) ss) (filter ?F completed)"
    by blast
  from orchestrate_submitted [OF assms(2), of result]
  obtain s' :: "'d summary" where s': "orchestrate ss result completed' = Inr s'"
    "successful_scripts s' = map ((!) ss) (filter ?T completed')"
    "failed_scripts s' = map ((!) ss) (filter ?F completed')"
    by blast
  have good: "mset (successful_scripts s) = mset (units_with ss ?T)"
    unfolding s(2) units_with_def using assms(1) by (rule mset_selected)
  have bad: "mset (failed_scripts s) = mset (units_with ss ?F)"
    unfolding s(3) units_with_def using assms(1) by (rule mset_selected)
  have good': "mset (successful_scripts s') = mset (units_with ss ?T)"
    unfolding s'(2) units_with_def using assms(2) by (rule mset_selected)
  have bad': "mset (failed_scripts s') = mset (units_with ss ?F)"
    unfolding s'(3) units_with_def using assms(2) by (rule mset_selected)
  have all: "mset (successful_scripts s) + mset (failed_scripts s) = mset ss"
    unfolding good bad units_with_def by (rule mset_split_nth)
  then have "mset (successful_scripts s @ failed_scripts s) = mset ss"
    by simp
  then have "distinct (successful_scripts s @ failed_scripts s) \<longleftrightarrow> distinct ss"
    by (rule mset_eq_imp_distinct_iff)
  then have once: "distinct ss \<longrightarrow> distinct (successful_scripts s @ failed_scripts s)"
    by simp
  have same: "mset (successful_scripts s') = mset (successful_scripts s)"
    "mset (failed_scripts s') = mset (failed_scripts s)"
    by (simp_all only: good good' bad bad')
  from s(1) s'(1) good bad all once same show ?thesis
    by blast
qed

theorem orchestrate_partition_witness:
  "\<exists>(s :: nat summary) (s' :: nat summary).
     main one_raises finish_order = Inr s \<and>
     main one_raises another_order = Inr s' \<and>
     mset (successful_scripts s) + mset (failed_scripts s) = mset scripts \<and>
     distinct (successful_scripts s @ failed_scripts s) \<and>
     mset (successful_scripts s') = mset (successful_scripts s) \<and>
     mset (failed_scripts s') = mset (failed_scripts s)"
proof -
  have "distinct scripts"
    by (simp add: scripts_def)
  with orchestrate_partition [OF example_orders, of one_raises, where ?'d = nat]
  show ?thesis
    unfolding main_def by blast
qed

text \<open>
  C7. When retrieving the result of a unit raises an exception, the orchestrator ends
  normally all the same: the unit is in the failed list, an error record names it with
  the exception's text, every unit is in one of the lists, and each sibling is recorded
  by its own result.
\<close>

theorem orchestrate_catches:
  assumes "mset completed = mset [0..<length ss]" "i < length ss" "result i = Raised e"
  shows "\<exists>s :: 'd summary.
     orchestrate ss result completed = Inr s \<and>
     ss ! i \<in> set (failed_scripts s) \<and>
     Log ERROR (UnexpectedError (ss ! i) e) \<in> set (logged s) \<and>
     length (successful_scripts s) + length (failed_scripts s) = length ss \<and>
     (\<forall>j. j < length ss \<and> result j = Returned True \<longrightarrow> ss ! j \<in> set (successful_scripts s)) \<and>
     (\<forall>j. j < length ss \<and> result j = Returned False \<longrightarrow> ss ! j \<in> set (failed_scripts s))"
proof -
  let ?T = "\<lambda>i. result i = Returned True"
  let ?F = "\<lambda>i. result i \<noteq> Returned True"
  from orchestrate_submitted [OF assms(1), of result]
  obtain s :: "'d summary" where s: "orchestrate ss result completed = Inr s"
    "successful_scripts s = map ((!) ss) (filter ?T completed)"
    "failed_scripts s = map ((!) ss) (filter ?F completed)"
    "logged s = concat (map (raised_log ss result) completed) @
       [Log INFO ExecutionSummary,
        Log INFO (SuccessfulScripts (successful_scripts s)),
        Log INFO (FailedScripts (failed_scripts s))]"
    by blast
  from assms(1) have "set completed = set [0..<length ss]"
    by (rule mset_eq_setD)
  then have mem: "j \<in> set completed \<longleftrightarrow> j < length ss" for j
    by simp
  from assms(2,3) mem have "ss ! i \<in> set (failed_scripts s)"
    unfolding s(3) by auto
  moreover have "Log ERROR (UnexpectedError (ss ! i) e) \<in> set (raised_log ss result i)"
    using assms(3) by (simp add: raised_log_def)
  with assms(2) mem have "Log ERROR (UnexpectedError (ss ! i) e) \<in> set (logged s)"
    unfolding s(4) by auto
  moreover have "length (successful_scripts s) + length (failed_scripts s) = length ss"
  proof -
    have "length (successful_scripts s) + length (failed_scripts s) = length completed"
      unfolding s(2,3) by (simp add: sum_length_filter_compl)
    also have "\<dots> = length ss"
      using assms(1) by (metis length_upt minus_nat.diff_0 size_mset)
    finally show ?thesis .
  qed
  moreover have "ss ! j \<in> set (successful_scripts s)" if "j < length ss" "result j = Returned True" for j
    using that mem unfolding s(2) by auto
  moreover have "ss ! j \<in> set (failed_scripts s)" if "j < length ss" "result j = Returned False" for j
    using that mem unfolding s(3) by auto
  ultimately show ?thesis
    using s(1) by blast
qed

theorem orchestrate_catches_witness:
  "\<exists>s :: nat summary.
     main one_raises finish_order = Inr s \<and>
     ''Automation-Survey/Automation/BSME-2-M-105.py'' \<in> set (failed_scripts s) \<and>
     Log ERROR (UnexpectedError ''Automation-Survey/Automation/BSME-2-M-105.py''
       ''BrokenProcessPool'') \<in> set (logged s) \<and>
     length (successful_scripts s) + length (failed_scripts s) = 5 \<and>
     ''Automation-Survey/Automation/BSA-3-M-20.py'' \<in> set (successful_scripts s) \<and>
     ''Automation-Survey/Automation/BSED-2-F-20.py'' \<in> set (failed_scripts s)"
proof -
  have "0 < length scripts" "one_raises 0 = Raised ''BrokenProcessPool''"
    by (simp_all add: scripts_def one_raises_def)
  from orchestrate_catches [where completed = finish_order and ss = scripts and i = 0
      and result = one_raises and e = "''BrokenProcessPool''", OF example_orders(1) this]
  obtain s :: "nat summary" where s: "orchestrate scripts one_raises finish_order = Inr s"
    "scripts ! 0 \<in> set (failed_scripts s)"
    "Log ERROR (UnexpectedError (scripts ! 0) ''BrokenProcessPool'') \<in> set (logged s)"
    "length (successful_scripts s) + length (failed_scripts s) = length scripts"
    "\<forall>j. j < length scripts \<and> one_raises j = Returned True \<longrightarrow>
        scripts ! j \<in> set (successful_scripts s)"
    "\<forall>j. j < length scripts \<and> one_raises j = Returned False \<longrightarrow>
        scripts ! j \<in> set (failed_scripts s)"
    by blast
  have "1 < length scripts \<and> one_raises 1 = Returned True"
    "2 < length scripts \<and> one_raises 2 = Returned False"
    by (simp_all add: scripts_def one_raises_def)
  with s(5,6) have "scripts ! 1 \<in> set (successful_scripts s)"
    "scripts ! 2 \<in> set (failed_scripts s)"
    by blast+
  then show ?thesis
    using s(1-4) unfolding main_def by (auto simp: scripts_def)
qed

section \<open>Claims about the delay generator\<close>




end
